theory Spec2Isabelle
  imports Complex_Main "HOL-Library.Multiset"
begin

section \<open>Python errors\<close>

text \<open>
  Every exception the modelled code can raise is a value of this type; a function that
  can raise returns \<open>error + 'a\<close>, with \<open>Inl\<close> for the exception.
\<close>

datatype error =
    ZeroDivisionError
  | ValueError
  | IndexError
  | KeyError
  | NetworkXError
  | AssertionError
  | AttributeError

section \<open>Devices\<close>

text \<open>
  A Disk object carries its capacity \<open>cv\<close> and its free slots \<open>avail\<close>; both are
  Python integers. Disk objects are compared by identity, so a Disk is named by a natural
  number and the heap of Disk objects is a function from names to their fields.
\<close>

record device =
  cv :: int
  avail :: int

type_synonym store = "nat \<Rightarrow> device"

text \<open>
  Modelled from the spec: the module disk.py (classes Disk and Alias) is not among the
  source files. The spec says of a Device: acquire requires availability > 0 and
  decrements it by one (reserve a slot); release restores slots at round boundaries; a
  breach of the availability contract fails fast by assertion.
\<close>

definition acquire :: "store \<Rightarrow> nat \<Rightarrow> error + store" where
  "acquire sto d =
     (if 0 < avail (sto d)
      then Inr (sto(d := (sto d)\<lparr>avail := avail (sto d) - 1\<rparr>))
      else Inl AssertionError)"

text \<open>
  Modelled from the spec: one call of free gives back the slot one call of acquire took.
\<close>

definition free :: "store \<Rightarrow> nat \<Rightarrow> store" where
  "free sto d = sto(d := (sto d)\<lparr>avail := avail (sto d) + 1\<rparr>)"

section \<open>The networkx multigraph\<close>

text \<open>
  A MultiGraph is its node list (in insertion order) and the list of its edges, one pair
  per parallel edge, as \<open>graph.edges()\<close> reports them. The graph is undirected: an edge
  stored as \<open>(u, v)\<close> also joins \<open>v\<close> to \<open>u\<close>. Adding an edge appends it, removing an
  edge between two nodes drops the one added last, as networkx does.
\<close>

record 'n graph =
  nodes :: "'n list"
  edges :: "('n \<times> 'n) list"

definition joins :: "'n \<Rightarrow> 'n \<Rightarrow> 'n \<times> 'n \<Rightarrow> bool" where
  "joins u v e = (e = (u, v) \<or> e = (v, u))"

definition has_edge :: "'n graph \<Rightarrow> 'n \<Rightarrow> 'n \<Rightarrow> bool" where
  "has_edge g u v = list_ex (joins u v) (edges g)"

fun remove_first :: "('a \<Rightarrow> bool) \<Rightarrow> 'a list \<Rightarrow> 'a list" where
  "remove_first P [] = []"
| "remove_first P (x # xs) = (if P x then xs else x # remove_first P xs)"

definition remove_last :: "('a \<Rightarrow> bool) \<Rightarrow> 'a list \<Rightarrow> 'a list" where
  "remove_last P xs = rev (remove_first P (rev xs))"

definition remove_edge :: "'n graph \<Rightarrow> 'n \<Rightarrow> 'n \<Rightarrow> error + 'n graph" where
  "remove_edge g u v =
     (if has_edge g u v
      then Inr (g\<lparr>edges := remove_last (joins u v) (edges g)\<rparr>)
      else Inl NetworkXError)"

definition add_node :: "'n graph \<Rightarrow> 'n \<Rightarrow> 'n graph" where
  "add_node g n = (if n \<in> set (nodes g) then g else g\<lparr>nodes := nodes g @ [n]\<rparr>)"

definition add_edge :: "'n graph \<Rightarrow> 'n \<Rightarrow> 'n \<Rightarrow> 'n graph" where
  "add_edge g u v = (add_node (add_node g u) v)\<lparr>edges := edges g @ [(u, v)]\<rparr>"

text \<open>The degree of a node counts every edge end at it, so a self-loop counts twice.\<close>

definition degree :: "'n graph \<Rightarrow> 'n \<Rightarrow> nat" where
  "degree g d =
     length (filter (\<lambda>e. fst e = d) (edges g)) + length (filter (\<lambda>e. snd e = d) (edges g))"

text \<open>An edge without its orientation, and the multiset of a graph's edges.\<close>

definition und :: "'n \<times> 'n \<Rightarrow> 'n set" where
  "und e = {fst e, snd e}"

definition uedges :: "'n graph \<Rightarrow> 'n set multiset" where
  "uedges g = image_mset und (mset (edges g))"





section \<open>Scheduler\<close>

text \<open>
  Python's \<open>ceil(a / b)\<close> on integers: the division raises on a zero divisor, otherwise
  the quotient is rounded up. The quotient is taken exactly here; Python's float quotient
  rounds to the same integer as long as the degree stays below \<open>2^53\<close>.
\<close>

definition py_ceil_div :: "int \<Rightarrow> int \<Rightarrow> error + int" where
  "py_ceil_div a b = (if b = 0 then Inl ZeroDivisionError else Inr (- ((- a) div b)))"

text \<open>A list comprehension whose element expression can raise stops at the first exception.\<close>

fun map_err :: "('a \<Rightarrow> error + 'b) \<Rightarrow> 'a list \<Rightarrow> error + 'b list" where
  "map_err f [] = Inr []"
| "map_err f (x # xs) =
     (case f x of
        Inl e \<Rightarrow> Inl e
      | Inr y \<Rightarrow> (case map_err f xs of Inl e \<Rightarrow> Inl e | Inr ys \<Rightarrow> Inr (y # ys)))"

text \<open>\<open>Scheduler.max_d\<close>; Python's \<open>max\<close> of an empty list raises ValueError.\<close>

definition max_d :: "store \<Rightarrow> nat graph \<Rightarrow> error + int" where
  "max_d st g =
     (case map_err (\<lambda>d. py_ceil_div (int (degree g d)) (cv (st d))) (nodes g) of
        Inl e \<Rightarrow> Inl e
      | Inr degrees \<Rightarrow> (if degrees = [] then Inl ValueError else Inr (Max (set degrees))))"

section \<open>InOrder\<close>

text \<open>
  The state of one pass of \<open>InOrder.do_work\<close>: the Disk heap, the demand graph, the list
  \<open>working\<close> of disks that acquired a slot, and the transfer records printed so far.
\<close>

record pass =
  sto :: store
  gr :: "nat graph"
  working :: "nat list"
  printed :: "(nat \<times> nat) list"

definition do_work_step :: "pass \<Rightarrow> nat \<times> nat \<Rightarrow> error + pass" where
  "do_work_step s e =
     (if 0 < avail (sto s (fst e)) \<and> 0 < avail (sto s (snd e)) \<and> has_edge (gr s) (fst e) (snd e)
      then
        if fst e \<noteq> snd e
        then
          (case acquire (sto s) (fst e) of
             Inl x \<Rightarrow> Inl x
           | Inr s1 \<Rightarrow>
               (case acquire s1 (snd e) of
                  Inl x \<Rightarrow> Inl x
                | Inr s2 \<Rightarrow>
                    (case remove_edge (gr s) (fst e) (snd e) of
                       Inl x \<Rightarrow> Inl x
                     | Inr g' \<Rightarrow>
                         Inr (s\<lparr>sto := s2, gr := g',
                                working := working s @ [fst e, snd e],
                                printed := printed s @ [e]\<rparr>))))
        else
          (case acquire (sto s) (fst e) of
             Inl x \<Rightarrow> Inl x
           | Inr s1 \<Rightarrow>
               (case remove_edge (gr s) (fst e) (snd e) of
                  Inl x \<Rightarrow> Inl x
                | Inr g' \<Rightarrow>
                    Inr (s\<lparr>sto := s1, gr := g',
                           working := working s @ [fst e],
                           printed := printed s @ [e]\<rparr>)))
      else Inr s)"

fun do_work_loop :: "pass \<Rightarrow> (nat \<times> nat) list \<Rightarrow> error + pass" where
  "do_work_loop s [] = Inr s"
| "do_work_loop s (e # queue) =
     (case do_work_step s e of Inl x \<Rightarrow> Inl x | Inr s' \<Rightarrow> do_work_loop s' queue)"

definition do_work_pass :: "store \<Rightarrow> nat graph \<Rightarrow> (nat \<times> nat) list \<Rightarrow> error + pass" where
  "do_work_pass st g queue =
     do_work_loop \<lparr>sto = st, gr = g, working = [], printed = []\<rparr> queue"

text \<open>The whole of \<open>do_work\<close>: the pass over the queue, then \<open>free\<close> on every entry of \<open>working\<close>.\<close>

definition do_work :: "store \<Rightarrow> nat graph \<Rightarrow> (nat \<times> nat) list \<Rightarrow> error + pass" where
  "do_work st g queue =
     (case do_work_pass st g queue of
        Inl x \<Rightarrow> Inl x
      | Inr s \<Rightarrow> Inr (s\<lparr>sto := foldl free (sto s) (working s)\<rparr>))"

definition InOrder_gen_edges :: "nat graph \<Rightarrow> (nat \<times> nat) list" where
  "InOrder_gen_edges g = edges g"

subsection \<open>The commit pass as the specification words it\<close>

text \<open>
  The specification's commit: a queued edge \<open>(u, v)\<close> is admissible when it is still in
  the graph, \<open>u\<close> has a free slot and, unless \<open>u = v\<close>, so has \<open>v\<close>. An admissible edge
  reserves its endpoints (once when \<open>u = v\<close>), leaves the graph, marks its endpoints
  active and emits a transfer record; any other edge changes nothing. After the pass
  every active endpoint is released.
\<close>

definition admissible :: "pass \<Rightarrow> nat \<times> nat \<Rightarrow> bool" where
  "admissible s e =
     (has_edge (gr s) (fst e) (snd e) \<and> 0 < avail (sto s (fst e)) \<and>
      (fst e = snd e \<or> 0 < avail (sto s (snd e))))"

definition reserve :: "store \<Rightarrow> nat \<Rightarrow> store" where
  "reserve st d = st(d := (st d)\<lparr>avail := avail (st d) - 1\<rparr>)"

definition apply_edge :: "pass \<Rightarrow> nat \<times> nat \<Rightarrow> pass" where
  "apply_edge s e =
     \<lparr>sto = (if fst e = snd e then reserve (sto s) (fst e)
             else reserve (reserve (sto s) (fst e)) (snd e)),
      gr = (gr s)\<lparr>edges := remove_last (joins (fst e) (snd e)) (edges (gr s))\<rparr>,
      working = working s @ (if fst e = snd e then [fst e] else [fst e, snd e]),
      printed = printed s @ [e]\<rparr>"

definition commit_step :: "pass \<Rightarrow> nat \<times> nat \<Rightarrow> pass" where
  "commit_step s e = (if admissible s e then apply_edge s e else s)"

definition release_active :: "pass \<Rightarrow> pass" where
  "release_active s = s\<lparr>sto := foldl free (sto s) (working s)\<rparr>"

definition commit_spec :: "store \<Rightarrow> nat graph \<Rightarrow> (nat \<times> nat) list \<Rightarrow> pass" where
  "commit_spec st g queue =
     release_active (foldl commit_step \<lparr>sto = st, gr = g, working = [], printed = []\<rparr> queue)"

subsection \<open>Example inputs\<close>

text \<open>Every disk with capacity \<open>c\<close> and all of it free.\<close>

definition cap_store :: "int \<Rightarrow> store" where
  "cap_store c = (\<lambda>_. \<lparr>cv = c, avail = c\<rparr>)"

text \<open>The triangle on disks 0, 1, 2 and the queue that lists its edges in order.\<close>

definition triangle :: "nat graph" where
  "triangle = \<lparr>nodes = [0, 1, 2], edges = [(0, 1), (1, 2), (0, 2)]\<rparr>"

definition triangle_queue :: "(nat \<times> nat) list" where
  "triangle_queue = [(0, 1), (1, 2), (0, 2)]"

text \<open>How often one pass of \<open>do_work\<close> reserves disk \<open>d\<close>.\<close>

definition reservations :: "store \<Rightarrow> nat graph \<Rightarrow> (nat \<times> nat) list \<Rightarrow> nat \<Rightarrow> nat" where
  "reservations st g queue d =
     (case do_work_pass st g queue of Inl _ \<Rightarrow> 0 | Inr s \<Rightarrow> count_list (working s) d)"

subsection \<open>The pass refines the specification's commit\<close>

lemma do_work_step_commit_step: "do_work_step s e = Inr (commit_step s e)"
  by (auto simp: do_work_step_def commit_step_def admissible_def apply_edge_def acquire_def
      remove_edge_def reserve_def)

lemma do_work_loop_commit: "do_work_loop s queue = Inr (foldl commit_step s queue)"
  by (induction queue arbitrary: s) (simp_all add: do_work_step_commit_step)

lemma avail_foldl_free:
  "foldl free st ws d = (st d)\<lparr>avail := avail (st d) + int (count_list ws d)\<rparr>"
  by (induction ws arbitrary: st) (auto simp: free_def)

lemma commit_step_sto:
  "sto (commit_step s e) d =
     (sto s d)\<lparr>avail := avail (sto s d) -
        (int (count_list (working (commit_step s e)) d) - int (count_list (working s) d))\<rparr>"
  by (auto simp: commit_step_def apply_edge_def reserve_def)

lemma foldl_commit_step_sto:
  "sto (foldl commit_step s queue) d =
     (sto s d)\<lparr>avail := avail (sto s d) -
        (int (count_list (working (foldl commit_step s queue)) d) - int (count_list (working s) d))\<rparr>"
proof (induction queue arbitrary: s)
  case Nil
  show ?case by simp
next
  case (Cons e queue)
  show ?case
    by (simp add: Cons.IH [of "commit_step s e"] commit_step_sto [of s e d])
qed

text \<open>
  C2. \<open>InOrder.do_work\<close> never raises and is the specification's commit: the queue is
  processed in order, an edge is applied exactly when it is admissible (present, \<open>u\<close>
  free, and \<open>v\<close> free unless \<open>u = v\<close>), an applied edge reserves its endpoints, leaves the
  graph and is printed, any other edge changes nothing, and after the pass every active
  endpoint is released, which gives every disk its availability back.
\<close>

theorem do_work_refines_commit:
  "do_work st g queue = Inr (commit_spec st g queue) \<and> sto (commit_spec st g queue) = st"
proof
  show "do_work st g queue = Inr (commit_spec st g queue)"
    by (simp add: do_work_def do_work_pass_def do_work_loop_commit commit_spec_def
        release_active_def)
  show "sto (commit_spec st g queue) = st"
    by (rule ext)
      (simp add: commit_spec_def release_active_def avail_foldl_free
        foldl_commit_step_sto [of _ queue])
qed

lemma tri_pass:
  "do_work_pass (cap_store 2) triangle triangle_queue =
     Inr \<lparr>sto = (cap_store 2)(0 := \<lparr>cv = 2, avail = 0\<rparr>, 1 := \<lparr>cv = 2, avail = 0\<rparr>, 2 := \<lparr>cv = 2, avail = 0\<rparr>),
          gr = \<lparr>nodes = [0, 1, 2], edges = []\<rparr>,
          working = [0, 1, 1, 2, 0, 2], printed = [(0, 1), (1, 2), (0, 2)]\<rparr>"
  by (simp add: do_work_pass_def do_work_step_def triangle_def triangle_queue_def cap_store_def
    acquire_def remove_edge_def has_edge_def joins_def remove_last_def fun_eq_iff)


theorem do_work_refines_commit_witness:
  "do_work (cap_store 2) triangle triangle_queue =
     Inr (commit_spec (cap_store 2) triangle triangle_queue) \<and>
   sto (commit_spec (cap_store 2) triangle triangle_queue) = cap_store 2 \<and>
   printed (commit_spec (cap_store 2) triangle triangle_queue) = [(0, 1), (1, 2), (0, 2)] \<and>
   edges (gr (commit_spec (cap_store 2) triangle triangle_queue)) = []"
  using do_work_refines_commit [of "cap_store 2" triangle triangle_queue]
  by (simp add: commit_spec_def release_active_def commit_step_def admissible_def apply_edge_def
      reserve_def triangle_def triangle_queue_def cap_store_def has_edge_def joins_def
      remove_last_def)

subsection \<open>Reservations of one device in one pass\<close>

lemma commit_step_nonneg:
  "0 \<le> avail (sto s d) \<Longrightarrow> 0 \<le> avail (sto (commit_step s e) d)"
  by (auto simp: commit_step_def admissible_def apply_edge_def reserve_def)

lemma commit_step_exhausted:
  "avail (sto s d) \<le> 0 \<Longrightarrow> fst e = d \<or> snd e = d \<Longrightarrow> commit_step s e = s"
  by (auto simp: commit_step_def admissible_def)

lemma commit_step_neg:
  "avail (sto s d) \<le> 0 \<Longrightarrow>
     sto (commit_step s e) d = sto s d \<and>
     count_list (working (commit_step s e)) d = count_list (working s) d"
  by (auto simp: commit_step_def admissible_def apply_edge_def reserve_def)

lemma foldl_commit_step_nonneg:
  "0 \<le> avail (sto s d) \<Longrightarrow> 0 \<le> avail (sto (foldl commit_step s queue) d)"
  by (induction queue arbitrary: s) (simp_all add: commit_step_nonneg)

lemma foldl_commit_step_neg:
  "avail (sto s d) \<le> 0 \<Longrightarrow>
     count_list (working (foldl commit_step s queue)) d = count_list (working s) d"
proof (induction queue arbitrary: s)
  case Nil
  show ?case by simp
next
  case (Cons e queue)
  have "avail (sto (commit_step s e) d) \<le> 0"
    using Cons.prems commit_step_neg [of s d e] by simp
  then show ?case
    using Cons.IH [of "commit_step s e"] commit_step_neg [of s d e] Cons.prems by simp
qed

lemma foldl_commit_step_count:
  "int (count_list (working (foldl commit_step s queue)) d) - int (count_list (working s) d) =
     avail (sto s d) - avail (sto (foldl commit_step s queue) d)"
  using arg_cong [where f = avail, OF foldl_commit_step_sto [of s queue d]] by simp

text \<open>
  C4, as the code has it. One pass of \<open>do_work\<close> reserves a device at most as often as it
  had free slots when the pass began (so at most once when it had one), its availability
  never goes below zero, and once it has no free slot every further queued edge that
  touches it is skipped.
\<close>

theorem do_work_pass_reservations:
  "\<exists>s. do_work_pass st g queue = Inr s \<and>
        int (count_list (working s) d) \<le> max 0 (avail (st d)) \<and>
        (0 \<le> avail (st d) \<longrightarrow> 0 \<le> avail (sto s d)) \<and>
        (\<forall>e. avail (sto s d) \<le> 0 \<and> (fst e = d \<or> snd e = d) \<longrightarrow> do_work_step s e = Inr s)"
proof -
  let ?i = "\<lparr>sto = st, gr = g, working = [], printed = []\<rparr>"
  let ?s = "foldl commit_step ?i queue"
  have run: "do_work_pass st g queue = Inr ?s"
    by (simp add: do_work_pass_def do_work_loop_commit)
  have cnt: "int (count_list (working ?s) d) \<le> max 0 (avail (st d))"
  proof (cases "0 \<le> avail (st d)")
    case True
    then have "0 \<le> avail (sto ?s d)"
      using foldl_commit_step_nonneg [of ?i d queue] by simp
    then show ?thesis
      using foldl_commit_step_count [of ?i queue d] by simp
  next
    case False
    then show ?thesis
      using foldl_commit_step_neg [of ?i d queue] by simp
  qed
  have nonneg: "0 \<le> avail (st d) \<longrightarrow> 0 \<le> avail (sto ?s d)"
    using foldl_commit_step_nonneg [of ?i d queue] by simp
  have skip: "\<forall>e. avail (sto ?s d) \<le> 0 \<and> (fst e = d \<or> snd e = d) \<longrightarrow> do_work_step ?s e = Inr ?s"
    using commit_step_exhausted [of ?s d] by (auto simp: do_work_step_commit_step)
  from run cnt nonneg skip show ?thesis by blast
qed

theorem do_work_pass_reservations_witness:
  "reservations (cap_store 2) triangle triangle_queue 0 = 2 \<and>
   int (reservations (cap_store 2) triangle triangle_queue 0) \<le> max 0 (avail (cap_store 2 0))"
  using do_work_pass_reservations [of "cap_store 2" triangle triangle_queue 0]
  by (simp add: reservations_def tri_pass)

text \<open>
  C4, as the claim words it, fails on the specification's own triangle scenario: with
  capacity 2 everywhere, one pass over the three queued edges reserves disk 1 twice.
\<close>

theorem triangle_reserves_twice:
  "reservations (cap_store 2) triangle triangle_queue 1 = 2"
  by (simp add: reservations_def tri_pass)

section \<open>Rounds and the conservation of edges\<close>




lemma remove_first_mset:
  "list_ex P xs \<Longrightarrow> \<exists>x. P x \<and> mset xs = add_mset x (mset (remove_first P xs))"
  by (induction xs) auto

lemma remove_last_mset:
  assumes "list_ex P xs"
  shows "\<exists>x. P x \<and> mset xs = add_mset x (mset (remove_last P xs))"
proof -
  from assms have "list_ex P (rev xs)" by (simp add: list_ex_iff)
  from remove_first_mset [OF this] show ?thesis
    by (simp add: remove_last_def)
qed









section \<open>EdgeRanking\<close>

















section \<open>Bipartite: parity relaxation and degree normalization\<close>

text \<open>Parity relaxation: a disk of odd \<open>cv\<close> loses one unit of \<open>cv\<close> and of \<open>avail\<close>.\<close>

definition relax_disk :: "device \<Rightarrow> device" where
  "relax_disk d = (if cv d mod 2 \<noteq> 0 then d\<lparr>cv := cv d - 1, avail := avail d - 1\<rparr> else d)"

definition relax :: "store \<Rightarrow> nat graph \<Rightarrow> store" where
  "relax st g = foldl (\<lambda>s d. s(d := relax_disk (s d))) st (nodes g)"

lemma degree_add_edge:
  "degree (add_edge g u v) d = degree g d + (if u = d then 1 else 0) + (if v = d then 1 else 0)"
  by (simp add: degree_def add_edge_def)

text \<open>
  The inner loop of \<open>normalize\<close>: self-loops are added at \<open>d\<close> while its degree is below
  \<open>delta_prime * cv - 1\<close>; every loop adds two to the degree, so the loop ends.
\<close>

function pad_loops :: "nat graph \<Rightarrow> nat \<Rightarrow> int \<Rightarrow> nat graph" where
  "pad_loops g d target =
     (if int (degree g d) < target - 1 then pad_loops (add_edge g d d) d target else g)"
  by pat_completeness auto
termination
  by (relation "measure (\<lambda>(g, d, target). nat (target - 1 - int (degree g d)))")
    (auto simp: degree_add_edge)

declare pad_loops.simps [simp del]

definition normalize_node ::
  "store \<Rightarrow> int \<Rightarrow> nat graph \<times> nat list \<Rightarrow> nat \<Rightarrow> nat graph \<times> nat list" where
  "normalize_node st delta_prime acc d =
     (let g' = pad_loops (fst acc) d (delta_prime * cv (st d))
      in (g', if int (degree g' d) = delta_prime * cv (st d) - 1 then snd acc @ [d] else snd acc))"

text \<open>
  The pairing loop takes two spares at a time; on a single remaining spare
  \<open>new_edge[1]\<close> raises IndexError.
\<close>

fun pair_spares :: "nat graph \<Rightarrow> nat list \<Rightarrow> error + nat graph" where
  "pair_spares g [] = Inr g"
| "pair_spares g [x] = Inl IndexError"
| "pair_spares g (x # y # spares) = pair_spares (add_edge g x y) spares"

definition normalize :: "store \<Rightarrow> nat graph \<Rightarrow> error + nat graph" where
  "normalize st g =
     (case max_d st g of
        Inl e \<Rightarrow> Inl e
      | Inr delta_prime \<Rightarrow>
          (case foldl (normalize_node st delta_prime) (g, []) (nodes g) of
             (g', spares) \<Rightarrow> pair_spares g' spares))"

text \<open>The path 0 - 1 - 2.\<close>

definition path3 :: "nat graph" where
  "path3 = \<lparr>nodes = [0, 1, 2], edges = [(0, 1), (1, 2)]\<rparr>"

subsection \<open>The handshake lemma\<close>


















lemma relax_disk_idem: "relax_disk (relax_disk x) = relax_disk x"
  by (simp add: relax_disk_def) presburger

lemma foldl_relax:
  "foldl (\<lambda>s d. s(d := relax_disk (s d))) st ns d =
     (if d \<in> set ns then relax_disk (st d) else st d)"
  by (induction ns arbitrary: st) (auto simp: relax_disk_idem)

lemma relax_at: "relax st g d = (if d \<in> set (nodes g) then relax_disk (st d) else st d)"
  by (simp add: relax_def foldl_relax)

lemma relax_disk_cv: "cv (relax_disk x) = (if even (cv x) then cv x else cv x - 1)"
  by (auto simp: relax_disk_def even_iff_mod_2_eq_zero)











section \<open>Bipartite: the flow network and the rounds\<close>

text \<open>
  The nodes of the flow network \<open>self.b\<close>: the strings \<open>'s'\<close> and \<open>'t'\<close>, a Disk \<open>d\<close> of the
  demand graph (the out side of \<open>d\<close>), and \<open>v_in[d]\<close>, the one Alias made for \<open>d\<close> (its in
  side).
\<close>

datatype bnode = Source | Sink | Out nat | In nat

text \<open>
  Modelled from the spec: the attribute \<open>org\<close> belongs to disk.py, which is not among the
  source files. An Alias resolves to its backing Device and a Device resolves to itself;
  the strings \<open>'s'\<close> and \<open>'t'\<close> have no such attribute.
\<close>

fun org :: "bnode \<Rightarrow> error + nat" where
  "org (Out d) = Inr d"
| "org (In d) = Inr d"
| "org Source = Inl AttributeError"
| "org Sink = Inl AttributeError"

text \<open>
  A DiGraph with a capacity on every edge: at most one edge per ordered pair, so adding an
  edge that is there only sets its capacity.
\<close>

type_synonym network = "((bnode \<times> bnode) \<times> int) list"

definition add_cap_edge :: "network \<Rightarrow> bnode \<Rightarrow> bnode \<Rightarrow> int \<Rightarrow> network" where
  "add_cap_edge n u v c =
     (if (u, v) \<in> fst ` set n
      then map (\<lambda>p. if fst p = (u, v) then ((u, v), c) else p) n
      else n @ [((u, v), c)])"

text \<open>\<open>remove_edges_from\<close> on a MultiGraph removes each listed edge if it is there.\<close>

definition remove_edges_from :: "'n graph \<Rightarrow> ('n \<times> 'n) list \<Rightarrow> 'n graph" where
  "remove_edges_from g es =
     foldl (\<lambda>g e. case remove_edge g (fst e) (snd e) of Inl _ \<Rightarrow> g | Inr g' \<Rightarrow> g') g es"

text \<open>\<open>ceil(c / 2)\<close>.\<close>

definition half_up :: "int \<Rightarrow> int" where
  "half_up c = - ((- c) div 2)"

text \<open>
  The network built from the Euler circuit \<open>ec\<close>: an edge of capacity 1 from \<open>e[0]\<close> to
  \<open>v_in[e[1]]\<close> for every step of the circuit (the dictionary lookup raises KeyError on a
  node the graph does not have), then the edges into \<open>'t'\<close> and out of \<open>'s'\<close>.
\<close>

definition build_network :: "store \<Rightarrow> nat graph \<Rightarrow> (nat \<times> nat) list \<Rightarrow> error + network" where
  "build_network st g ec =
     (case map_err (\<lambda>e. if snd e \<in> set (nodes g) then Inr (Out (fst e), In (snd e))
                         else Inl KeyError) ec of
        Inl x \<Rightarrow> Inl x
      | Inr steps \<Rightarrow>
          (let n0 = foldl (\<lambda>n e. add_cap_edge n (fst e) (snd e) 1) [] steps;
               n1 = foldl (\<lambda>n d. add_cap_edge n (In d) Sink (half_up (cv (st d)))) n0 (nodes g);
               n2 = foldl (\<lambda>n d. add_cap_edge n Source (Out d) (half_up (cv (st d)))) n1 (nodes g)
           in Inr n2))"

text \<open>
  The first call of \<open>Bipartite.gen_edges\<close>. The two library routines are parameters:
  \<open>euler\<close> stands for \<open>nx.eulerian_circuit\<close> (\<open>None\<close> when it raises because the graph is
  not Eulerian) and \<open>maximum_flow\<close> for \<open>nx.maximum_flow\<close>. \<open>nx.eulerian_circuit\<close> is a
  generator, so it reads the graph when the loop over \<open>ec\<close> starts, which is after the
  self-loops were removed.
\<close>

definition first_call ::
  "(nat graph \<Rightarrow> (nat \<times> nat) list option) \<Rightarrow> store \<Rightarrow> nat graph \<Rightarrow>
     error + (network \<times> store \<times> nat graph)" where
  "first_call euler st g =
     (let st1 = relax st g in
      case normalize st1 g of
        Inl x \<Rightarrow> Inl x
      | Inr g1 \<Rightarrow>
          (let loops = filter (\<lambda>e. fst e = snd e) (edges g1);
               g2 = remove_edges_from g1 loops
           in case euler g2 of
                None \<Rightarrow> Inl NetworkXError
              | Some ec \<Rightarrow>
                  (case build_network st1 g2 ec of
                     Inl x \<Rightarrow> Inl x
                   | Inr n \<Rightarrow> Inr (n, st1, g2))))"

text \<open>
  The flow dictionary \<open>nx.maximum_flow\<close> returns, a dictionary of dictionaries, in
  iteration order; \<open>extract_flow\<close> is the comprehension that keeps the pairs with positive
  flow away from \<open>'s'\<close> and \<open>'t'\<close>, and \<open>reassociate\<close> the one that maps them to original
  disks and drops the pairs on one disk.
\<close>

type_synonym flow_dict = "(bnode \<times> (bnode \<times> int) list) list"

definition extract_flow :: "flow_dict \<Rightarrow> (bnode \<times> bnode) list" where
  "extract_flow fd =
     concat (map (\<lambda>d. map (\<lambda>d2. (fst d, fst d2))
                        (filter (\<lambda>d2. 0 < snd d2 \<and> fst d \<notin> {Source, Sink} \<and>
                                       fst d2 \<notin> {Source, Sink}) (snd d))) fd)"

definition reassociate :: "(bnode \<times> bnode) list \<Rightarrow> error + (nat \<times> nat) list" where
  "reassociate flow =
     (case map_err (\<lambda>e. case org (fst e) of
                          Inl x \<Rightarrow> Inl x
                        | Inr u \<Rightarrow> (case org (snd e) of Inl x \<Rightarrow> Inl x | Inr v \<Rightarrow> Inr (u, v)))
             flow of
        Inl x \<Rightarrow> Inl x
      | Inr pairs \<Rightarrow> Inr (filter (\<lambda>p. fst p \<noteq> snd p) pairs))"

text \<open>The fields of a Bipartite scheduler; \<open>net\<close> is \<open>self.b\<close>.\<close>

record bipartite =
  normalized :: bool
  net :: network

definition Bipartite_gen_edges ::
  "(nat graph \<Rightarrow> (nat \<times> nat) list option) \<Rightarrow> (network \<Rightarrow> flow_dict) \<Rightarrow>
     bipartite \<Rightarrow> store \<Rightarrow> nat graph \<Rightarrow>
     error + ((nat \<times> nat) list \<times> bipartite \<times> store \<times> nat graph)" where
  "Bipartite_gen_edges euler maximum_flow self st g =
     (case (if \<not> normalized self
            then (case first_call euler st g of
                    Inl x \<Rightarrow> Inl x
                  | Inr (n, st1, g1) \<Rightarrow> Inr (\<lparr>normalized = True, net = n\<rparr>, st1, g1))
            else Inr (self, st, g)) of
        Inl x \<Rightarrow> Inl x
      | Inr (self1, st1, g1) \<Rightarrow>
          (let flow = extract_flow (maximum_flow (net self1)) in
           case reassociate flow of
             Inl x \<Rightarrow> Inl x
           | Inr queue \<Rightarrow>
               Inr (queue, self1\<lparr>net := filter (\<lambda>p. fst p \<notin> set flow) (net self1)\<rparr>, st1, g1)))"

text \<open>
  An example: disks 0, 1, 2 with two edges 0-1 and two edges 1-2, an Euler circuit of
  the graph that normalization and the removal of self-loops leave, and a maximum flow of
  the network built from it.
\<close>

definition ladder :: "nat graph" where
  "ladder = \<lparr>nodes = [0, 1, 2], edges = [(0, 1), (0, 1), (1, 2), (1, 2)]\<rparr>"

definition ladder_euler :: "nat graph \<Rightarrow> (nat \<times> nat) list option" where
  "ladder_euler g = Some [(0, 1), (1, 2), (2, 1), (1, 0)]"

definition ladder_flow :: "network \<Rightarrow> flow_dict" where
  "ladder_flow n =
     [(Source, [(Out 0, 1), (Out 1, 1), (Out 2, 0)]),
      (Out 0, [(In 1, 1)]),
      (Out 1, [(In 2, 1), (In 0, 0)]),
      (Out 2, [(In 1, 0)]),
      (In 0, [(Sink, 0)]),
      (In 1, [(Sink, 1)]),
      (In 2, [(Sink, 1)]),
      (Sink, [])]"

subsection \<open>Which exceptions the first call can raise\<close>

lemma map_err_Inl:
  "map_err f xs = Inl e \<Longrightarrow> list_ex (\<lambda>x. f x = Inl e) xs"
  by (induction xs) (auto split: sum.splits)

lemma map_err_first_error:
  "list_ex (\<lambda>x. f x = Inl e) xs \<Longrightarrow> list_all (\<lambda>x. \<forall>e'. f x = Inl e' \<longrightarrow> e' = e) xs \<Longrightarrow>
     map_err f xs = Inl e"
proof (induction xs)
  case Nil
  then show ?case by simp
next
  case (Cons x xs)
  show ?case
  proof (cases "f x")
    case (Inl e')
    then have "e' = e" using Cons.prems(2) by simp
    then show ?thesis using Inl by simp
  next
    case (Inr y)
    then have "list_ex (\<lambda>x. f x = Inl e) xs" using Cons.prems(1) by simp
    then have "map_err f xs = Inl e" using Cons.IH Cons.prems(2) by simp
    then show ?thesis using Inr by simp
  qed
qed

lemma max_d_zero_cv:
  assumes "list_ex (\<lambda>d. cv (st d) = 0) (nodes g)"
  shows "max_d st g = Inl ZeroDivisionError"
proof -
  let ?f = "\<lambda>d. py_ceil_div (int (degree g d)) (cv (st d))"
  have "list_ex (\<lambda>d. ?f d = Inl ZeroDivisionError) (nodes g)"
    using assms by (auto simp: list_ex_iff py_ceil_div_def)
  moreover have "list_all (\<lambda>d. \<forall>e'. ?f d = Inl e' \<longrightarrow> e' = ZeroDivisionError) (nodes g)"
    by (auto simp: list_all_iff py_ceil_div_def split: if_splits)
  ultimately have "map_err ?f (nodes g) = Inl ZeroDivisionError"
    by (rule map_err_first_error)
  then show ?thesis by (simp add: max_d_def)
qed

lemma pair_spares_error: "pair_spares g sp = Inl e \<Longrightarrow> e = IndexError"
  by (induction g sp rule: pair_spares.induct) auto

lemma normalize_error:
  assumes "normalize st g = Inl e"
  shows "e = IndexError \<or> max_d st g = Inl e"
  using assms pair_spares_error
  by (auto simp: normalize_def split: sum.splits prod.splits)

lemma max_d_error:
  assumes "max_d st g = Inl ZeroDivisionError"
  shows "list_ex (\<lambda>d. cv (st d) = 0) (nodes g)"
proof -
  let ?f = "\<lambda>d. py_ceil_div (int (degree g d)) (cv (st d))"
  from assms have "map_err ?f (nodes g) = Inl ZeroDivisionError"
    by (auto simp: max_d_def split: sum.splits if_splits)
  from map_err_Inl [OF this] show ?thesis
    by (auto simp: list_ex_iff py_ceil_div_def split: if_splits)
qed

lemma build_network_error:
  assumes "build_network st g ec = Inl e"
  shows "e = KeyError"
proof -
  from assms have "map_err (\<lambda>e. if snd e \<in> set (nodes g) then Inr (Out (fst e), In (snd e))
      else Inl KeyError) ec = Inl e"
    by (simp add: build_network_def Let_def split: sum.splits)
  from map_err_Inl [OF this] show ?thesis
    by (auto simp: list_ex_iff split: if_splits)
qed

lemma reassociate_error: "reassociate flow = Inl e \<Longrightarrow> e = AttributeError"
proof -
  assume "reassociate flow = Inl e"
  then have "map_err (\<lambda>e. case org (fst e) of Inl x \<Rightarrow> Inl x
      | Inr u \<Rightarrow> (case org (snd e) of Inl x \<Rightarrow> Inl x | Inr v \<Rightarrow> Inr (u, v))) flow = Inl e"
    by (auto simp: reassociate_def split: sum.splits)
  from map_err_Inl [OF this] obtain x where
    "(case org (fst x) of Inl x \<Rightarrow> Inl x
      | Inr u \<Rightarrow> (case org (snd x) of Inl x \<Rightarrow> Inl x | Inr v \<Rightarrow> Inr (u, v))) = Inl e"
    by (auto simp: list_ex_iff)
  then show ?thesis
    by (cases "fst x"; cases "snd x") (auto split: sum.splits)
qed

lemma first_call_error:
  assumes "first_call euler st g = Inl e"
  shows "e = IndexError \<or> e = NetworkXError \<or> e = KeyError \<or> max_d (relax st g) g = Inl e"
proof (cases "normalize (relax st g) g")
  case (Inl x)
  then have "x = e" using assms by (simp add: first_call_def)
  with Inl normalize_error [of "relax st g" g e] show ?thesis by blast
next
  case (Inr g1)
  let ?g2 = "remove_edges_from g1 (filter (\<lambda>e. fst e = snd e) (edges g1))"
  show ?thesis
  proof (cases "euler ?g2")
    case None
    then show ?thesis using assms Inr by (simp add: first_call_def)
  next
    case (Some ec)
    then have "build_network (relax st g) ?g2 ec = Inl e"
      using assms Inr by (simp add: first_call_def Let_def split: sum.splits)
    then show ?thesis using build_network_error by blast
  qed
qed

lemma gen_edges_error:
  assumes "Bipartite_gen_edges euler maximum_flow \<lparr>normalized = False, net = n\<rparr> st g = Inl e"
  shows "e = AttributeError \<or> first_call euler st g = Inl e"
proof (cases "first_call euler st g")
  case (Inl x)
  then show ?thesis using assms by (simp add: Bipartite_gen_edges_def)
next
  case (Inr r)
  obtain n1 st1 g1 where r: "r = (n1, st1, g1)" by (cases r) auto
  have "reassociate (extract_flow (maximum_flow n1)) = Inl e"
    using assms Inr r by (simp add: Bipartite_gen_edges_def Let_def split: sum.splits)
  then show ?thesis using reassociate_error by blast
qed

lemma relax_cap_store_2: "relax (cap_store 2) g = cap_store 2"
  by (rule ext) (simp add: relax_at relax_disk_def cap_store_def)

lemma normalize_ladder:
  "normalize (cap_store 2) ladder =
     Inr \<lparr>nodes = [0, 1, 2], edges = [(0, 1), (0, 1), (1, 2), (1, 2), (0, 0), (2, 2)]\<rparr>"
  by (simp add: normalize_def max_d_def normalize_node_def pad_loops.simps add_edge_def
      add_node_def degree_def py_ceil_div_def cap_store_def ladder_def Let_def)

lemma first_call_ladder:
  "first_call ladder_euler (cap_store 2) ladder =
     Inr ([((Out 0, In 1), 1), ((Out 1, In 2), 1), ((Out 2, In 1), 1), ((Out 1, In 0), 1),
           ((In 0, Sink), 1), ((In 1, Sink), 1), ((In 2, Sink), 1),
           ((Source, Out 0), 1), ((Source, Out 1), 1), ((Source, Out 2), 1)],
          cap_store 2,
          \<lparr>nodes = [0, 1, 2], edges = [(0, 1), (0, 1), (1, 2), (1, 2)]\<rparr>)"
  unfolding first_call_def Let_def relax_cap_store_2 normalize_ladder
  by (simp add: remove_edges_from_def remove_edge_def has_edge_def joins_def remove_last_def
      ladder_euler_def build_network_def add_cap_edge_def half_up_def Let_def)
    (simp add: cap_store_def)

lemma gen_edges_ladder:
  "map_sum id fst
     (Bipartite_gen_edges ladder_euler ladder_flow \<lparr>normalized = False, net = []\<rparr>
        (cap_store 2) ladder) = Inr [(0, 1), (1, 2)]"
  by (simp add: Bipartite_gen_edges_def first_call_ladder ladder_flow_def extract_flow_def
      reassociate_def Let_def)

text \<open>
  C10. Whatever the two library routines do: when some device has capacity 1, the first
  call of \<open>Bipartite.gen_edges\<close> raises ZeroDivisionError (parity relaxation brings that
  capacity to 0 and \<open>max_d\<close> divides by it); when every device has capacity at least 2,
  the first call does not raise ZeroDivisionError.
\<close>

theorem gen_edges_zero_division:
  "(list_ex (\<lambda>d. cv (st d) = 1) (nodes g) \<longrightarrow>
      Bipartite_gen_edges euler maximum_flow \<lparr>normalized = False, net = n\<rparr> st g =
        Inl ZeroDivisionError) \<and>
   (list_all (\<lambda>d. 2 \<le> cv (st d)) (nodes g) \<longrightarrow>
      Bipartite_gen_edges euler maximum_flow \<lparr>normalized = False, net = n\<rparr> st g \<noteq>
        Inl ZeroDivisionError)"
proof (intro conjI impI)
  assume "list_ex (\<lambda>d. cv (st d) = 1) (nodes g)"
  then obtain d where d: "d \<in> set (nodes g)" "cv (st d) = 1"
    by (auto simp: list_ex_iff)
  then have "cv (relax st g d) = 0"
    by (simp add: relax_at relax_disk_cv)
  with d(1) have "list_ex (\<lambda>d. cv (relax st g d) = 0) (nodes g)"
    by (auto simp: list_ex_iff)
  then have "normalize (relax st g) g = Inl ZeroDivisionError"
    by (simp add: normalize_def max_d_zero_cv)
  then show "Bipartite_gen_edges euler maximum_flow \<lparr>normalized = False, net = n\<rparr> st g =
      Inl ZeroDivisionError"
    by (simp add: Bipartite_gen_edges_def first_call_def)
next
  assume caps: "list_all (\<lambda>d. 2 \<le> cv (st d)) (nodes g)"
  have nz: "\<not> list_ex (\<lambda>d. cv (relax st g d) = 0) (nodes g)"
  proof
    assume "list_ex (\<lambda>d. cv (relax st g d) = 0) (nodes g)"
    then obtain d where d: "d \<in> set (nodes g)" "cv (relax st g d) = 0"
      by (auto simp: list_ex_iff)
    from d(1) caps have "2 \<le> cv (st d)" by (simp add: list_all_iff)
    with d show False by (simp add: relax_at relax_disk_cv split: if_splits)
  qed
  show "Bipartite_gen_edges euler maximum_flow \<lparr>normalized = False, net = n\<rparr> st g \<noteq>
      Inl ZeroDivisionError"
  proof
    assume "Bipartite_gen_edges euler maximum_flow \<lparr>normalized = False, net = n\<rparr> st g =
      Inl ZeroDivisionError"
    from gen_edges_error [OF this] have "first_call euler st g = Inl ZeroDivisionError" by simp
    from first_call_error [OF this] have "max_d (relax st g) g = Inl ZeroDivisionError" by simp
    from max_d_error [OF this] nz show False by simp
  qed
qed

theorem gen_edges_zero_division_witness:
  "Bipartite_gen_edges ladder_euler ladder_flow \<lparr>normalized = False, net = []\<rparr>
     (cap_store 1) ladder = Inl ZeroDivisionError \<and>
   map_sum id fst
     (Bipartite_gen_edges ladder_euler ladder_flow \<lparr>normalized = False, net = []\<rparr>
        (cap_store 2) ladder) = Inr [(0, 1), (1, 2)]"
proof -
  have one: "list_ex (\<lambda>d. cv (cap_store 1 d) = 1) (nodes ladder)"
    by (simp add: cap_store_def ladder_def)
  have two: "list_all (\<lambda>d. 2 \<le> cv (cap_store 2 d)) (nodes ladder)"
    by (simp add: cap_store_def ladder_def)
  from gen_edges_zero_division [of "cap_store 1" ladder ladder_euler ladder_flow "[]"] one
  show ?thesis by (simp add: gen_edges_ladder)
qed

subsection \<open>No pair on one device is scheduled\<close>

lemma reassociate_no_self_pair:
  "reassociate flow = Inr queue \<Longrightarrow> list_all (\<lambda>p. fst p \<noteq> snd p) queue"
  by (auto simp: reassociate_def list_all_iff split: sum.splits)

lemma gen_edges_cases:
  assumes "Bipartite_gen_edges euler maximum_flow self st g = Inr (queue, self', st', g')"
  shows "\<exists>self1. reassociate (extract_flow (maximum_flow (net self1))) = Inr queue \<and>
           self' = self1\<lparr>net := filter (\<lambda>p. fst p \<notin> set (extract_flow (maximum_flow (net self1))))
                                 (net self1)\<rparr> \<and>
           (if normalized self then self1 = self \<and> st' = st \<and> g' = g
            else \<exists>n. first_call euler st g = Inr (n, st', g') \<and>
                     self1 = \<lparr>normalized = True, net = n\<rparr>)"
proof (cases "normalized self")
  case True
  then show ?thesis
    using assms by (simp add: Bipartite_gen_edges_def Let_def split: sum.splits)
next
  case False
  show ?thesis
  proof (cases "first_call euler st g")
    case (Inl x)
    then show ?thesis using assms False by (simp add: Bipartite_gen_edges_def)
  next
    case (Inr r)
    obtain n1 st1 g1 where r: "r = (n1, st1, g1)" by (cases r) auto
    show ?thesis
      using assms False Inr r by (simp add: Bipartite_gen_edges_def Let_def split: sum.splits)
  qed
qed

text \<open>
  C6. Whatever the two library routines return, in the first round or a later one: the
  queue \<open>Bipartite.gen_edges\<close> returns has no pair whose two endpoints are the same
  device, so no self-loop is ever scheduled as a transfer.
\<close>

theorem gen_edges_no_self_pair:
  assumes "Bipartite_gen_edges euler maximum_flow self st g = Inr (queue, self', st', g')"
  shows "list_all (\<lambda>p. fst p \<noteq> snd p) queue"
proof -
  from gen_edges_cases [OF assms] obtain flow where "reassociate flow = Inr queue"
    by blast
  then show ?thesis by (rule reassociate_no_self_pair)
qed


theorem gen_edges_no_self_pair_witness:
  "map_sum id fst
     (Bipartite_gen_edges ladder_euler ladder_flow \<lparr>normalized = False, net = []\<rparr>
        (cap_store 2) ladder) = Inr [(0, 1), (1, 2)] \<and>
   list_all (\<lambda>p. fst p \<noteq> snd p) [(0 :: nat, 1 :: nat), (1, 2)]"
proof -
  obtain r where r: "Bipartite_gen_edges ladder_euler ladder_flow
      \<lparr>normalized = False, net = []\<rparr> (cap_store 2) ladder = Inr r" and q: "fst r = [(0, 1), (1, 2)]"
    using gen_edges_ladder
    by (cases "Bipartite_gen_edges ladder_euler ladder_flow
      \<lparr>normalized = False, net = []\<rparr> (cap_store 2) ladder") auto
  obtain q' s' st' g' where "r = (q', s', st', g')" by (cases r) auto
  with r q gen_edges_no_self_pair [of ladder_euler ladder_flow "\<lparr>normalized = False, net = []\<rparr>"
      "cap_store 2" ladder "[(0, 1), (1, 2)]" s' st' g']
  show ?thesis by simp
qed


section \<open>Aliases\<close>

text \<open>
  Modelled from the spec: the class Alias belongs to disk.py, which is not among the
  source files. An Alias is a graph node of its own identity that is backed by a Device
  or by another Alias and resolves, transitively, to a Device; two Aliases are distinct
  nodes even when they resolve to the same Device. An Alias is named by the number it
  got when it was created, and every \<open>Alias(x)\<close> in the code takes the next number.
\<close>

datatype anode = Disk nat | Alias nat anode

fun org_of :: "anode \<Rightarrow> nat" where
  "org_of (Disk d) = d"
| "org_of (Alias i x) = org_of x"

text \<open>\<open>graph.edges(d)\<close>: the edges at \<open>d\<close>, each reported from \<open>d\<close>; a self-loop is reported once.\<close>

definition edges_at :: "'n graph \<Rightarrow> 'n \<Rightarrow> ('n \<times> 'n) list" where
  "edges_at g d =
     concat (map (\<lambda>e. if fst e = d then [(d, snd e)] else if snd e = d then [(d, fst e)] else [])
               (edges g))"

definition add_edges_from :: "'n graph \<Rightarrow> ('n \<times> 'n) list \<Rightarrow> 'n graph" where
  "add_edges_from g es = foldl (\<lambda>g e. add_edge g (fst e) (snd e)) g es"

section \<open>FlattenAndColor\<close>

text \<open>
  \<open>alias_graph\<close>: for every node \<open>d\<close> of the demand graph a new Alias of \<open>d\<close>, joined to a
  new Alias of the other endpoint of every edge at \<open>d\<close>. The second component counts the
  Aliases created so far.
\<close>

definition alias_node :: "nat graph \<Rightarrow> anode graph \<times> nat \<Rightarrow> nat \<Rightarrow> anode graph \<times> nat" where
  "alias_node g acc d =
     (let k = snd acc;
          disk_alias = Alias k (Disk d);
          es = edges_at g d;
          alias_edges = map (\<lambda>(j, e). (disk_alias, Alias (k + 1 + j) (Disk (snd e))))
                          (zip [0..<length es] es)
      in (add_edges_from (add_node (fst acc) disk_alias) alias_edges, k + 1 + length es))"

definition alias_graph :: "nat graph \<Rightarrow> nat \<Rightarrow> anode graph \<times> nat" where
  "alias_graph g k = foldl (alias_node g) (\<lparr>nodes = [], edges = []\<rparr>, k) (nodes g)"

text \<open>
  \<open>split\<close>: \<open>new_disks\<close> stays empty and \<open>new_edges\<close> is overwritten in every turn of the
  inner loop, so what is added to the alias graph are the edges of the last clone made.
\<close>

definition split_node ::
  "store \<Rightarrow> anode graph \<Rightarrow> (anode \<times> anode) list \<times> nat \<Rightarrow> anode \<Rightarrow> (anode \<times> anode) list \<times> nat" where
  "split_node st a acc d =
     (if 1 < cv (st (org_of d))
      then foldl (\<lambda>acc' i. (map (\<lambda>e. (Alias (snd acc') (Disk (org_of d)), snd e)) (edges_at a d),
                             Suc (snd acc')))
             acc [1 ..< nat (cv (st (org_of d)) - 1)]
      else acc)"

definition split :: "store \<Rightarrow> nat graph \<Rightarrow> nat \<Rightarrow> anode graph \<times> nat" where
  "split st g k =
     (let (a, k1) = alias_graph g k;
          (new_edges, k2) = foldl (split_node st a) ([], k1) (nodes a)
      in (add_edges_from a new_edges, k2))"

text \<open>
  \<open>greedy_color\<close>: the dictionary \<open>e_colors\<close> in insertion order. Its keys are the pairs
  \<open>graph.edges(d)\<close> reports, so an edge between \<open>u\<close> and \<open>v\<close> is entered as \<open>(u, v)\<close> at \<open>u\<close>
  and as \<open>(v, u)\<close> at \<open>v\<close>.
\<close>

fun color_edges ::
  "('n \<times> 'n) list \<Rightarrow> nat \<Rightarrow> (('n \<times> 'n) \<times> nat) list \<Rightarrow> (('n \<times> 'n) \<times> nat) list" where
  "color_edges [] color e_colors = e_colors"
| "color_edges (e # es) color e_colors =
     (if e \<notin> fst ` set e_colors
      then color_edges es (Suc color) (e_colors @ [(e, color)])
      else color_edges es color e_colors)"

definition greedy_color :: "'n graph \<Rightarrow> (('n \<times> 'n) \<times> nat) list" where
  "greedy_color g = foldl (\<lambda>e_colors d. color_edges (edges_at g d) 0 e_colors) [] (nodes g)"

text \<open>
  A proper edge coloring, on the dictionary: two entries for different edges that share
  an endpoint have different colors.
\<close>

definition proper_coloring :: "(('n \<times> 'n) \<times> nat) list \<Rightarrow> bool" where
  "proper_coloring e_colors =
     list_all (\<lambda>p. list_all (\<lambda>q.
         und (fst p) \<noteq> und (fst q) \<and> und (fst p) \<inter> und (fst q) \<noteq> {} \<longrightarrow> snd p \<noteq> snd q)
       e_colors) e_colors"

lemma split_path3:
  "split (cap_store 1) path3 0 =
     (\<lparr>nodes = [Alias 0 (Disk 0), Alias 1 (Disk 1), Alias 2 (Disk 1), Alias 3 (Disk 0),
                Alias 4 (Disk 2), Alias 5 (Disk 2), Alias 6 (Disk 1)],
       edges = [(Alias 0 (Disk 0), Alias 1 (Disk 1)), (Alias 2 (Disk 1), Alias 3 (Disk 0)),
                (Alias 2 (Disk 1), Alias 4 (Disk 2)), (Alias 5 (Disk 2), Alias 6 (Disk 1))]\<rparr>, 7)"
  by (simp add: split_def alias_graph_def alias_node_def split_node_def edges_at_def
      add_edges_from_def add_edge_def add_node_def path3_def cap_store_def Let_def upt_rec)

lemma greedy_color_path3:
  "greedy_color (fst (split (cap_store 1) path3 0)) =
     [((Alias 0 (Disk 0), Alias 1 (Disk 1)), 0),
      ((Alias 1 (Disk 1), Alias 0 (Disk 0)), 0),
      ((Alias 2 (Disk 1), Alias 3 (Disk 0)), 0),
      ((Alias 2 (Disk 1), Alias 4 (Disk 2)), 1),
      ((Alias 3 (Disk 0), Alias 2 (Disk 1)), 0),
      ((Alias 4 (Disk 2), Alias 2 (Disk 1)), 0),
      ((Alias 5 (Disk 2), Alias 6 (Disk 1)), 0),
      ((Alias 6 (Disk 1), Alias 5 (Disk 2)), 0)]"
  unfolding split_path3
  by (simp add: greedy_color_def edges_at_def)

text \<open>
  C8 does not hold of the code. On the alias graph that \<open>split\<close> builds for the path
  0 - 1 - 2 (capacities 1), \<open>greedy_color\<close> gives color 0 to the entries
  \<open>(Alias 3, Alias 2)\<close> and \<open>(Alias 4, Alias 2)\<close>: two different edges at the node
  \<open>Alias 2\<close> with one color. The colors restart at 0 at every node and no node remembers
  the colors of its edges.
\<close>

theorem greedy_color_conflict:
  "map_of (greedy_color (fst (split (cap_store 1) path3 0)))
     (Alias 3 (Disk 0), Alias 2 (Disk 1)) = Some 0 \<and>
   map_of (greedy_color (fst (split (cap_store 1) path3 0)))
     (Alias 4 (Disk 2), Alias 2 (Disk 1)) = Some 0 \<and>
   map_of (greedy_color (fst (split (cap_store 1) path3 0)))
     (Alias 2 (Disk 1), Alias 4 (Disk 2)) = Some 1"
  unfolding greedy_color_path3 by simp

lemma greedy_color_not_proper:
  "\<not> proper_coloring (greedy_color (fst (split (cap_store 1) path3 0)))"
  unfolding greedy_color_path3
  by (simp add: proper_coloring_def und_def doubleton_eq_iff)

section \<open>Scheduler.mg_split\<close>

text \<open>
  \<open>Counter(graph.edges())\<close>: every distinct pair with the number of times it occurs, in the
  order of first occurrence.
\<close>

definition counter :: "'a list \<Rightarrow> ('a \<times> nat) list" where
  "counter xs = map (\<lambda>x. (x, count_list xs x)) (rev (remdups (rev xs)))"

text \<open>One turn of the \<open>while\<close> loop: a new Alias of \<open>e[0]\<close> is joined to \<open>e[1]\<close>, then one edge
  between \<open>e[0]\<close> and \<open>e[1]\<close> is removed.\<close>

definition split_once ::
  "anode graph \<times> nat \<Rightarrow> anode \<times> anode \<Rightarrow> error + (anode graph \<times> nat)" where
  "split_once s e =
     (case remove_edge (add_edge (fst s) (Alias (snd s) (fst e)) (snd e)) (fst e) (snd e) of
        Inl x \<Rightarrow> Inl x
      | Inr g' \<Rightarrow> Inr (g', Suc (snd s)))"

fun split_loop ::
  "nat \<Rightarrow> anode \<times> anode \<Rightarrow> anode graph \<times> nat \<Rightarrow> error + (anode graph \<times> nat)" where
  "split_loop n e s =
     (if 1 < n
      then (case split_once s e of Inl x \<Rightarrow> Inl x | Inr s' \<Rightarrow> split_loop (n - 1) e s')
      else Inr s)"

declare split_loop.simps [simp del]

fun mg_split_loop ::
  "((anode \<times> anode) \<times> nat) list \<Rightarrow> anode graph \<times> nat \<Rightarrow> error + (anode graph \<times> nat)" where
  "mg_split_loop [] s = Inr s"
| "mg_split_loop ((e, n) # occ) s =
     (case split_loop n e s of Inl x \<Rightarrow> Inl x | Inr s' \<Rightarrow> mg_split_loop occ s')"

definition mg_split :: "anode graph \<Rightarrow> nat \<Rightarrow> error + (anode graph \<times> nat)" where
  "mg_split g k = mg_split_loop (counter (edges g)) (g, k)"

text \<open>
  What \<open>mg_split\<close> is given: an edge list that reports every pair of nodes one way round,
  as \<open>graph.edges()\<close> does, and a counter \<open>k\<close> above the number of every Alias in the graph.
\<close>

definition one_way :: "('n \<times> 'n) list \<Rightarrow> bool" where
  "one_way es = list_all (\<lambda>e. (snd e, fst e) \<in> set es \<longrightarrow> fst e = snd e) es"

fun fresh_for :: "nat \<Rightarrow> anode \<Rightarrow> bool" where
  "fresh_for k (Disk d) = True"
| "fresh_for k (Alias i x) = (i < k \<and> fresh_for k x)"

text \<open>
  The edges \<open>mg_split\<close> adds: for a pair that occurs \<open>n\<close> times, \<open>n - 1\<close> edges, each from a
  new Alias of the first node to the second node itself.
\<close>

fun new_edges :: "nat \<Rightarrow> ((anode \<times> anode) \<times> nat) list \<Rightarrow> (anode \<times> anode) list" where
  "new_edges k [] = []"
| "new_edges k ((e, n) # occ) =
     map (\<lambda>i. (Alias i (fst e), snd e)) [k ..< k + (n - 1)] @ new_edges (k + (n - 1)) occ"

text \<open>The copies \<open>mg_split\<close> removes: all but one of every pair.\<close>

fun surplus :: "('a \<times> nat) list \<Rightarrow> 'a multiset" where
  "surplus [] = {#}"
| "surplus ((e, n) # occ) = replicate_mset (n - 1) e + surplus occ"

text \<open>Two and three parallel edges between disks 0 and 1.\<close>

definition double_edge :: "anode graph" where
  "double_edge = \<lparr>nodes = [Disk 0, Disk 1], edges = [(Disk 0, Disk 1), (Disk 0, Disk 1)]\<rparr>"

definition triple_edge :: "anode graph" where
  "triple_edge =
     \<lparr>nodes = [Disk 0, Disk 1, Disk 2],
      edges = [(Disk 0, Disk 1), (Disk 0, Disk 1), (Disk 0, Disk 1), (Disk 1, Disk 2)]\<rparr>"

lemma alias_neq: "Alias k u \<noteq> u"
  by (induction u arbitrary: k) auto

lemma remove_last_append_not: "\<not> P a \<Longrightarrow> remove_last P (xs @ [a]) = remove_last P xs @ [a]"
  by (simp add: remove_last_def)

lemma remove_last_mset_eq:
  assumes "list_ex P xs" and "\<forall>x\<in>set xs. P x \<longrightarrow> x = e"
  shows "add_mset e (mset (remove_last P xs)) = mset xs"
proof -
  from remove_last_mset [OF assms(1)] obtain x where
    x: "P x" "mset xs = add_mset x (mset (remove_last P xs))" by blast
  then have "x \<in># mset xs" by simp
  then have "x \<in> set xs" by simp
  with assms(2) x(1) have "x = e" by blast
  with x(2) show ?thesis by simp
qed

lemma split_once_mset:
  assumes "e \<in> set (edges g)" and "(snd e, fst e) \<in> set (edges g) \<longrightarrow> fst e = snd e"
  shows "\<exists>g'. split_once (g, k) e = Inr (g', Suc k) \<and>
            add_mset e (mset (edges g')) = add_mset (Alias k (fst e), snd e) (mset (edges g))"
proof -
  let ?a = "(Alias k (fst e), snd e)"
  let ?P = "joins (fst e) (snd e)"
  have na: "\<not> ?P ?a" using alias_neq [of k "fst e"] by (cases e) (auto simp: joins_def)
  have ex: "list_ex ?P (edges g)"
    using assms(1) by (auto simp: list_ex_iff joins_def)
  have uniq: "\<forall>x\<in>set (edges g). ?P x \<longrightarrow> x = e"
    using assms(2) by (cases e) (auto simp: joins_def)
  have rl: "remove_last ?P (edges g @ [?a]) = remove_last ?P (edges g) @ [?a]"
    using na by (rule remove_last_append_not)
  have he: "has_edge (add_edge g (Alias k (fst e)) (snd e)) (fst e) (snd e)"
    using ex by (simp add: has_edge_def add_edge_def)
  let ?g' = "(add_edge g (Alias k (fst e)) (snd e))\<lparr>edges := remove_last ?P (edges g) @ [?a]\<rparr>"
  have "split_once (g, k) e = Inr (?g', Suc k)"
    using he rl by (simp add: split_once_def remove_edge_def add_edge_def)
  moreover have "add_mset e (mset (edges ?g')) = add_mset ?a (mset (edges g))"
    using remove_last_mset_eq [OF ex uniq] by simp
  ultimately show ?thesis by blast
qed

lemma split_loop_mset:
  assumes "count_list (edges g) e = Suc m"
    and "(snd e, fst e) \<in> set (edges g) \<longrightarrow> fst e = snd e"
  shows "\<exists>g'. split_loop (Suc m) e (g, k) = Inr (g', k + m) \<and>
            mset (edges g') + replicate_mset m e =
              mset (edges g) + mset (map (\<lambda>i. (Alias i (fst e), snd e)) [k ..< k + m])"
  using assms
proof (induction m arbitrary: g k)
  case 0
  show ?case by (simp add: split_loop.simps)
next
  case (Suc m)
  let ?a = "(Alias k (fst e), snd e)"
  have ein: "e \<in> set (edges g)"
    using Suc.prems(1) by (metis count_list_0_iff nat.distinct(1))
  from split_once_mset [OF ein Suc.prems(2), of k] obtain g1 where
    g1: "split_once (g, k) e = Inr (g1, Suc k)"
        "add_mset e (mset (edges g1)) = add_mset ?a (mset (edges g))"
    by blast
  have ane: "?a \<noteq> e" using alias_neq [of k "fst e"] by (cases e) auto
  have "count (add_mset e (mset (edges g1))) e = count (add_mset ?a (mset (edges g))) e"
    using g1(2) by simp
  then have cnt: "count_list (edges g1) e = Suc m"
    using Suc.prems(1) ane by (simp add: count_mset)
  have ori: "(snd e, fst e) \<in> set (edges g1) \<longrightarrow> fst e = snd e"
  proof
    assume "(snd e, fst e) \<in> set (edges g1)"
    then have "(snd e, fst e) \<in># add_mset e (mset (edges g1))" by simp
    then have "(snd e, fst e) \<in># add_mset ?a (mset (edges g))" using g1(2) by simp
    then have "(snd e, fst e) = ?a \<or> (snd e, fst e) \<in> set (edges g)" by auto
    then show "fst e = snd e"
      using Suc.prems(2) alias_neq [of k "fst e"] by auto
  qed
  from Suc.IH [OF cnt ori, of "Suc k"] obtain g' where
    g': "split_loop (Suc m) e (g1, Suc k) = Inr (g', Suc k + m)"
        "mset (edges g') + replicate_mset m e =
           mset (edges g1) + mset (map (\<lambda>i. (Alias i (fst e), snd e)) [Suc k ..< Suc k + m])"
    by blast
  have run: "split_loop (Suc (Suc m)) e (g, k) = Inr (g', k + Suc m)"
    using g1(1) g'(1) by (simp add: split_loop.simps [of "Suc (Suc m)"])
  have "mset (edges g') + replicate_mset (Suc m) e =
      add_mset e (mset (edges g1)) + mset (map (\<lambda>i. (Alias i (fst e), snd e)) [Suc k ..< Suc k + m])"
    using g'(2) by simp
  also have "\<dots> = mset (edges g) + mset (map (\<lambda>i. (Alias i (fst e), snd e)) [k ..< k + Suc m])"
  proof -
    have "[k ..< k + Suc m] = k # [Suc k ..< Suc k + m]" by (simp add: upt_conv_Cons)
    then show ?thesis unfolding g1(2) by simp
  qed
  finally show ?case using run by blast
qed


lemma fresh_for_mono: "fresh_for k x \<Longrightarrow> k \<le> k' \<Longrightarrow> fresh_for k' x"
  by (induction x) auto

lemma new_edges_shape:
  "x \<in> set (new_edges k occ) \<Longrightarrow>
     \<exists>i u. k \<le> i \<and> i < k + size (surplus occ) \<and> fst x = Alias i u"
proof (induction occ arbitrary: k)
  case Nil
  then show ?case by simp
next
  case (Cons p occ)
  obtain e n where p: "p = (e, n)" by (cases p)
  from Cons.prems p consider
    "x \<in> set (map (\<lambda>i. (Alias i (fst e), snd e)) [k ..< k + (n - 1)])"
    | "x \<in> set (new_edges (k + (n - 1)) occ)" by auto
  then show ?case
  proof cases
    case 1
    then show ?thesis using p by auto
  next
    case 2
    from Cons.IH [OF 2] obtain i u where
      "k + (n - 1) \<le> i" "i < k + (n - 1) + size (surplus occ)" "fst x = Alias i u" by blast
    then show ?thesis using p by (intro exI [of _ i] exI [of _ u]) simp
  qed
qed

lemma new_edges_not_fresh: "x \<in> set (new_edges k occ) \<Longrightarrow> \<not> fresh_for k (fst x)"
  using new_edges_shape [of x k occ] by auto

lemma length_new_edges: "length (new_edges k occ) = size (surplus occ)"
  by (induction occ arbitrary: k) auto

lemma distinct_new_edges: "distinct (new_edges k occ)"
proof (induction occ arbitrary: k)
  case Nil
  show ?case by simp
next
  case (Cons p occ)
  obtain e n where p: "p = (e, n)" by (cases p)
  have d1: "distinct (map (\<lambda>i. (Alias i (fst e), snd e)) [k ..< k + (n - 1)])"
    by (simp add: distinct_map inj_on_def)
  have disj: "set (map (\<lambda>i. (Alias i (fst e), snd e)) [k ..< k + (n - 1)]) \<inter>
      set (new_edges (k + (n - 1)) occ) = {}"
  proof (rule ccontr)
    assume "\<not> ?thesis"
    then obtain x where x1: "x \<in> set (map (\<lambda>i. (Alias i (fst e), snd e)) [k ..< k + (n - 1)])"
      and x2: "x \<in> set (new_edges (k + (n - 1)) occ)" by blast
    from x1 obtain i where "i < k + (n - 1)" "fst x = Alias i (fst e)" by auto
    moreover from new_edges_shape [OF x2] obtain j u where "k + (n - 1) \<le> j" "fst x = Alias j u"
      by blast
    ultimately show False by simp
  qed
  show ?case using p d1 disj Cons.IH [of "k + (n - 1)"] by simp
qed

lemma mg_split_loop_mset:
  assumes "distinct (map fst occ)"
    and "\<forall>p\<in>set occ. count_list (edges g) (fst p) = snd p \<and> 1 \<le> snd p \<and>
           ((snd (fst p), fst (fst p)) \<in> set (edges g) \<longrightarrow> fst (fst p) = snd (fst p)) \<and>
           fresh_for k (fst (fst p)) \<and> fresh_for k (snd (fst p))"
  shows "\<exists>g'. mg_split_loop occ (g, k) = Inr (g', k + size (surplus occ)) \<and>
            mset (edges g') + surplus occ = mset (edges g) + mset (new_edges k occ)"
  using assms
proof (induction occ arbitrary: g k)
  case Nil
  show ?case by simp
next
  case (Cons p occ)
  obtain e n where p: "p = (e, n)" by (cases p)
  from Cons.prems(2) p have e: "count_list (edges g) e = n" "1 \<le> n"
      "(snd e, fst e) \<in> set (edges g) \<longrightarrow> fst e = snd e"
    by simp_all
  obtain m where m: "n = Suc m" using e(2) by (cases n) auto
  define new where "new = map (\<lambda>i. (Alias i (fst e), snd e)) [k ..< k + m]"
  from split_loop_mset [OF e(1) [unfolded m] e(3), of k] obtain g1 where
    g1: "split_loop (Suc m) e (g, k) = Inr (g1, k + m)"
        "mset (edges g1) + replicate_mset m e = mset (edges g) + mset new"
    unfolding new_def by blast
  have newshape: "\<And>x. x \<in> set new \<Longrightarrow> \<exists>i. k \<le> i \<and> fst x = Alias i (fst e)"
    unfolding new_def by auto
  have rest: "\<forall>q\<in>set occ. count_list (edges g1) (fst q) = snd q \<and> 1 \<le> snd q \<and>
           ((snd (fst q), fst (fst q)) \<in> set (edges g1) \<longrightarrow> fst (fst q) = snd (fst q)) \<and>
           fresh_for (k + m) (fst (fst q)) \<and> fresh_for (k + m) (snd (fst q))"
  proof
    fix q assume q: "q \<in> set occ"
    with Cons.prems(2) have old: "count_list (edges g) (fst q) = snd q" "1 \<le> snd q"
      "(snd (fst q), fst (fst q)) \<in> set (edges g) \<longrightarrow> fst (fst q) = snd (fst q)"
      "fresh_for k (fst (fst q))" "fresh_for k (snd (fst q))" by simp_all
    have ne: "fst q \<noteq> e" using Cons.prems(1) q p by force
    have notnew: "fst q \<notin> set new"
    proof
      assume "fst q \<in> set new"
      from newshape [OF this] obtain i where "k \<le> i" "fst (fst q) = Alias i (fst e)" by blast
      with old(4) show False by simp
    qed
    have "count (mset (edges g1) + replicate_mset m e) (fst q) =
        count (mset (edges g) + mset new) (fst q)"
      using g1(2) by simp
    then have c: "count_list (edges g1) (fst q) = snd q"
      using ne notnew old(1) by (simp add: count_mset count_list_0_iff)
    have o: "(snd (fst q), fst (fst q)) \<in> set (edges g1) \<longrightarrow> fst (fst q) = snd (fst q)"
    proof
      assume "(snd (fst q), fst (fst q)) \<in> set (edges g1)"
      then have "(snd (fst q), fst (fst q)) \<in># mset (edges g1) + replicate_mset m e" by simp
      then have "(snd (fst q), fst (fst q)) \<in># mset (edges g) + mset new"
        using g1(2) by simp
      then have "(snd (fst q), fst (fst q)) \<in> set (edges g) \<or> (snd (fst q), fst (fst q)) \<in> set new"
        by simp
      then show "fst (fst q) = snd (fst q)"
      proof
        assume "(snd (fst q), fst (fst q)) \<in> set (edges g)"
        with old(3) show ?thesis by simp
      next
        assume "(snd (fst q), fst (fst q)) \<in> set new"
        from newshape [OF this] obtain i where "k \<le> i" "snd (fst q) = Alias i (fst e)" by auto
        with old(5) show ?thesis by simp
      qed
    qed
    show "count_list (edges g1) (fst q) = snd q \<and> 1 \<le> snd q \<and>
           ((snd (fst q), fst (fst q)) \<in> set (edges g1) \<longrightarrow> fst (fst q) = snd (fst q)) \<and>
           fresh_for (k + m) (fst (fst q)) \<and> fresh_for (k + m) (snd (fst q))"
      using c old(2) o fresh_for_mono [OF old(4), of "k + m"] fresh_for_mono [OF old(5), of "k + m"]
      by simp
  qed
  have dist: "distinct (map fst occ)" using Cons.prems(1) by simp
  from Cons.IH [OF dist rest] obtain g' where
    g': "mg_split_loop occ (g1, k + m) = Inr (g', k + m + size (surplus occ))"
        "mset (edges g') + surplus occ = mset (edges g1) + mset (new_edges (k + m) occ)"
    by blast
  have run: "mg_split_loop (p # occ) (g, k) = Inr (g', k + size (surplus (p # occ)))"
    using g1(1) g'(1) p m by (simp add: add.assoc)
  have "mset (edges g') + surplus (p # occ) =
      (mset (edges g') + surplus occ) + replicate_mset m e"
    using p m by simp
  also have "\<dots> = (mset (edges g1) + replicate_mset m e) + mset (new_edges (k + m) occ)"
    using g'(2) by simp
  also have "\<dots> = mset (edges g) + mset (new_edges k (p # occ))"
    using g1(2) p m by (simp add: new_def)
  finally show ?case using run by blast
qed


lemma counter_keys: "map fst (counter es) = rev (remdups (rev es))"
  by (simp add: counter_def comp_def)

lemma map_of_tagged: "map_of (map (\<lambda>x. (x, f x)) ys) x = (if x \<in> set ys then Some (f x) else None)"
  by (induction ys) auto

lemma map_of_counter:
  "map_of (counter es) x = (if x \<in> set es then Some (count_list es x) else None)"
  by (simp add: counter_def map_of_tagged)

lemma count_surplus:
  "distinct (map fst occ) \<Longrightarrow>
     count (surplus occ) x = (case map_of occ x of None \<Rightarrow> 0 | Some n \<Rightarrow> n - 1)"
proof (induction occ)
  case Nil
  show ?case by simp
next
  case (Cons p occ)
  obtain e n where p: "p = (e, n)" by (cases p)
  have "e \<notin> fst ` set occ" using Cons.prems p by simp
  then have "map_of occ e = None" by (simp add: map_of_eq_None_iff)
  then show ?case using Cons p by simp
qed

lemma count_list_distinct: "distinct xs \<Longrightarrow> count_list xs x = (if x \<in> set xs then 1 else 0)"
  by (induction xs) auto

lemma surplus_counter: "surplus (counter es) + mset (remdups es) = mset es"
proof (rule multiset_eqI)
  fix x
  have d: "distinct (map fst (counter es))" by (simp add: counter_keys)
  have "count (mset (remdups es)) x = (if x \<in> set es then 1 else 0)"
    by (simp add: count_mset count_list_distinct)
  moreover have "x \<in> set es \<Longrightarrow> 1 \<le> count_list es x"
    by (metis One_nat_def Suc_leI count_list_0_iff neq0_conv)
  ultimately show "count (surplus (counter es) + mset (remdups es)) x = count (mset es) x"
    by (auto simp: count_surplus [OF d] map_of_counter count_mset)
qed

lemma size_surplus_counter: "size (surplus (counter es)) = length es - length (remdups es)"
proof -
  have "size (surplus (counter es) + mset (remdups es)) = size (mset es)"
    by (simp only: surplus_counter)
  then show ?thesis by simp
qed

lemma count_new_edges:
  "distinct (map fst occ) \<Longrightarrow> k0 \<le> k \<Longrightarrow>
     length (filter (\<lambda>x. \<exists>i. k0 \<le> i \<and> x = (Alias i u, v)) (new_edges k occ)) =
       (case map_of occ (u, v) of None \<Rightarrow> 0 | Some n \<Rightarrow> n - 1)"
proof (induction occ arbitrary: k)
  case Nil
  show ?case by simp
next
  case (Cons p occ)
  obtain e n where p: "p = (e, n)" by (cases p)
  have none: "map_of occ e = None"
    using Cons.prems p by (simp add: map_of_eq_None_iff)
  let ?l = "map (\<lambda>i. (Alias i (fst e), snd e)) [k ..< k + (n - 1)]"
  have "length (filter (\<lambda>x. \<exists>i. k0 \<le> i \<and> x = (Alias i u, v)) ?l) =
      (if e = (u, v) then n - 1 else 0)"
  proof (cases "e = (u, v)")
    case True
    then have "filter (\<lambda>x. \<exists>i. k0 \<le> i \<and> x = (Alias i u, v)) ?l = ?l"
      using Cons.prems(2) by (auto simp: filter_id_conv)
    then show ?thesis using True by simp
  next
    case False
    then have "filter (\<lambda>x. \<exists>i. k0 \<le> i \<and> x = (Alias i u, v)) ?l = []"
      by (cases e) (auto simp: filter_empty_conv)
    then show ?thesis using False by simp
  qed
  moreover have "k0 \<le> k + (n - 1)" using Cons.prems(2) by simp
  ultimately show ?case
    using Cons.IH [of "k + (n - 1)"] Cons.prems(1) p none by auto
qed

text \<open>
  C7, as the code has it. On an edge list that reports every pair one way round, with
  the Alias counter above every Alias of the graph, \<open>mg_split\<close> does not raise and keeps
  the number of edges; a pair \<open>(u, v)\<close> with \<open>n\<close> parallel edges is left with one edge
  between \<open>u\<close> and \<open>v\<close> themselves and gets \<open>n - 1\<close> edges, each from a new Alias of \<open>u\<close>
  to \<open>v\<close>; no Alias of \<open>v\<close> is made; no two edges of the result are equal.
\<close>

theorem mg_split_result:
  assumes "one_way (edges g)"
    and "list_all (\<lambda>e. fresh_for k (fst e) \<and> fresh_for k (snd e)) (edges g)"
  shows "\<exists>g'. mg_split g k = Inr (g', k + (length (edges g) - length (remdups (edges g)))) \<and>
           mset (edges g') = mset (remdups (edges g)) + mset (new_edges k (counter (edges g))) \<and>
           length (edges g') = length (edges g) \<and> distinct (edges g') \<and>
           (\<forall>u v. (u, v) \<in> set (edges g) \<longrightarrow>
              count_list (edges g') (u, v) = 1 \<and>
              length (filter (\<lambda>x. \<exists>i. k \<le> i \<and> x = (Alias i u, v)) (edges g')) =
                count_list (edges g) (u, v) - 1)"
proof -
  let ?es = "edges g"
  let ?occ = "counter ?es"
  have d: "distinct (map fst ?occ)" by (simp add: counter_keys)
  have pre: "\<forall>p\<in>set ?occ. count_list ?es (fst p) = snd p \<and> 1 \<le> snd p \<and>
           ((snd (fst p), fst (fst p)) \<in> set ?es \<longrightarrow> fst (fst p) = snd (fst p)) \<and>
           fresh_for k (fst (fst p)) \<and> fresh_for k (snd (fst p))"
  proof
    fix p assume "p \<in> set ?occ"
    then have p: "fst p \<in> set ?es" "snd p = count_list ?es (fst p)"
      by (auto simp: counter_def)
    then have "1 \<le> snd p"
      by (metis One_nat_def Suc_leI count_list_0_iff neq0_conv)
    with p assms show "count_list ?es (fst p) = snd p \<and> 1 \<le> snd p \<and>
           ((snd (fst p), fst (fst p)) \<in> set ?es \<longrightarrow> fst (fst p) = snd (fst p)) \<and>
           fresh_for k (fst (fst p)) \<and> fresh_for k (snd (fst p))"
      by (simp add: one_way_def list_all_iff)
  qed
  from mg_split_loop_mset [OF d pre] obtain g' where
    g': "mg_split_loop ?occ (g, k) = Inr (g', k + size (surplus ?occ))"
        "mset (edges g') + surplus ?occ = mset ?es + mset (new_edges k ?occ)"
    by blast
  have run: "mg_split g k = Inr (g', k + (length ?es - length (remdups ?es)))"
    using g'(1) by (simp add: mg_split_def size_surplus_counter)
  have "mset (edges g') + surplus ?occ =
      (mset (remdups ?es) + mset (new_edges k ?occ)) + surplus ?occ"
    using g'(2) surplus_counter [of ?es] by (simp add: ac_simps)
  then have ms: "mset (edges g') = mset (remdups ?es) + mset (new_edges k ?occ)"
    by simp
  then have ms': "mset (edges g') = mset (remdups ?es @ new_edges k ?occ)" by simp
  have "size (mset (edges g')) = size (mset (remdups ?es) + mset (new_edges k ?occ))"
    by (simp only: ms)
  then have len: "length (edges g') = length ?es"
    using size_surplus_counter [of ?es] length_remdups_leq [of ?es]
    by (simp add: length_new_edges)
  have fresh: "\<And>x. x \<in> set ?es \<Longrightarrow> fresh_for k (fst x)"
    using assms(2) by (simp add: list_all_iff)
  have disj: "set (remdups ?es) \<inter> set (new_edges k ?occ) = {}"
    using fresh new_edges_not_fresh by fastforce
  have "distinct (remdups ?es @ new_edges k ?occ)"
    using disj by (simp add: distinct_new_edges)
  then have dist: "distinct (edges g')"
    using mset_eq_imp_distinct_iff [OF ms'] by simp
  have sets: "set (edges g') = set ?es \<union> set (new_edges k ?occ)"
    using arg_cong [OF ms, of set_mset] by simp
  have pairs: "\<forall>u v. (u, v) \<in> set ?es \<longrightarrow>
      count_list (edges g') (u, v) = 1 \<and>
      length (filter (\<lambda>x. \<exists>i. k \<le> i \<and> x = (Alias i u, v)) (edges g')) =
        count_list ?es (u, v) - 1"
  proof (intro allI impI)
    fix u v assume uv: "(u, v) \<in> set ?es"
    let ?P = "\<lambda>x. \<exists>i. k \<le> i \<and> x = (Alias i u, v)"
    have "(u, v) \<in> set (edges g')" using uv sets by simp
    then have c1: "count_list (edges g') (u, v) = 1"
      using dist by (simp add: count_list_distinct)
    have "\<And>x. x \<in> set (remdups ?es) \<Longrightarrow> \<not> ?P x"
      using fresh by fastforce
    then have old: "filter ?P (remdups ?es) = []"
      by (simp add: filter_empty_conv)
    have "length (filter ?P (edges g')) = size (mset (filter ?P (edges g')))"
      by (simp only: size_mset)
    also have "\<dots> = size (filter_mset ?P (mset (edges g')))"
      by (simp only: mset_filter)
    also have "\<dots> = size (filter_mset ?P (mset (remdups ?es))) +
        size (filter_mset ?P (mset (new_edges k ?occ)))"
      by (simp only: ms filter_union_mset size_union)
    also have "\<dots> = length (filter ?P (remdups ?es)) + length (filter ?P (new_edges k ?occ))"
      by (simp only: mset_filter [symmetric] size_mset)
    also have "\<dots> = count_list ?es (u, v) - 1"
      using uv old count_new_edges [OF d order_refl, where u = u and v = v] by (simp add: map_of_counter)
    finally show "count_list (edges g') (u, v) = 1 \<and>
      length (filter ?P (edges g')) = count_list ?es (u, v) - 1"
      using c1 by simp
  qed
  from run ms len dist pairs show ?thesis by blast
qed


lemma mg_split_triple_edge:
  "mg_split triple_edge 0 =
     Inr (\<lparr>nodes = [Disk 0, Disk 1, Disk 2, Alias 0 (Disk 0), Alias 1 (Disk 0)],
           edges = [(Disk 0, Disk 1), (Disk 1, Disk 2),
                    (Alias 0 (Disk 0), Disk 1), (Alias 1 (Disk 0), Disk 1)]\<rparr>, 2)"
  by (simp add: mg_split_def counter_def triple_edge_def split_loop.simps split_once_def
      add_edge_def add_node_def remove_edge_def has_edge_def joins_def remove_last_def)

theorem mg_split_result_witness:
  "one_way (edges triple_edge) \<and>
   list_all (\<lambda>e. fresh_for 0 (fst e) \<and> fresh_for 0 (snd e)) (edges triple_edge) \<and>
   mg_split triple_edge 0 =
     Inr (\<lparr>nodes = [Disk 0, Disk 1, Disk 2, Alias 0 (Disk 0), Alias 1 (Disk 0)],
           edges = [(Disk 0, Disk 1), (Disk 1, Disk 2),
                    (Alias 0 (Disk 0), Disk 1), (Alias 1 (Disk 0), Disk 1)]\<rparr>, 2) \<and>
   count_list (edges triple_edge) (Disk 0, Disk 1) = 3"
proof -
  have ow: "one_way (edges triple_edge)"
    by (simp add: one_way_def triple_edge_def)
  have fr: "list_all (\<lambda>e. fresh_for 0 (fst e) \<and> fresh_for 0 (snd e)) (edges triple_edge)"
    by (simp add: triple_edge_def)
  from mg_split_result [OF ow fr] ow fr show ?thesis
    by (simp add: mg_split_triple_edge) (simp add: triple_edge_def)
qed


text \<open>
  C7, as the claim words it, fails on two parallel edges: the result has one new
  Alias, not two, it is an Alias of the first node only, and one edge still joins the
  two original nodes.
\<close>

theorem mg_split_double_edge:
  "mg_split double_edge 0 =
     Inr (\<lparr>nodes = [Disk 0, Disk 1, Alias 0 (Disk 0)],
           edges = [(Disk 0, Disk 1), (Alias 0 (Disk 0), Disk 1)]\<rparr>, 1)"
  by (simp add: mg_split_def counter_def double_edge_def split_loop.simps split_once_def
      add_edge_def add_node_def remove_edge_def has_edge_def joins_def remove_last_def)



section \<open>Bipartite: the number of rounds\<close>

text \<open>
  What \<open>nx.eulerian_circuit\<close> returns on an Eulerian graph: a closed walk, given by its
  steps, that takes every edge of the graph exactly once.
\<close>

fun is_walk :: "'n \<Rightarrow> ('n \<times> 'n) list \<Rightarrow> 'n \<Rightarrow> bool" where
  "is_walk u [] v = (u = v)"
| "is_walk u (e # es) v = (fst e = u \<and> is_walk (snd e) es v)"

definition euler_circuit :: "'n graph \<Rightarrow> ('n \<times> 'n) list \<Rightarrow> bool" where
  "euler_circuit g ec =
     ((ec = [] \<or> is_walk (fst (hd ec)) ec (fst (hd ec))) \<and>
      image_mset und (mset ec) = uedges g)"

text \<open>
  What \<open>nx.maximum_flow\<close> returns: a dictionary with one entry for every edge of the
  network, whose integer values respect the capacities, are conserved at every node but
  \<open>'s'\<close> and \<open>'t'\<close>, and carry as much out of \<open>'s'\<close> as any flow of the network can.
\<close>

definition entries :: "flow_dict \<Rightarrow> ((bnode \<times> bnode) \<times> int) list" where
  "entries fd = concat (map (\<lambda>d. map (\<lambda>d2. ((fst d, fst d2), snd d2)) (snd d)) fd)"

definition feasible :: "network \<Rightarrow> (bnode \<times> bnode \<Rightarrow> real) \<Rightarrow> bool" where
  "feasible n h =
     ((\<forall>p\<in>set n. 0 \<le> h (fst p) \<and> h (fst p) \<le> real_of_int (snd p)) \<and>
      (\<forall>x. x \<noteq> Source \<and> x \<noteq> Sink \<longrightarrow>
           (\<Sum>e\<in>{e \<in> fst ` set n. snd e = x}. h e) = (\<Sum>e\<in>{e \<in> fst ` set n. fst e = x}. h e)))"

definition flow_value :: "network \<Rightarrow> (bnode \<times> bnode \<Rightarrow> real) \<Rightarrow> real" where
  "flow_value n h = (\<Sum>e\<in>{e \<in> fst ` set n. fst e = Source}. h e)"

definition flow_fun :: "flow_dict \<Rightarrow> bnode \<times> bnode \<Rightarrow> real" where
  "flow_fun fd e = (case map_of (entries fd) e of None \<Rightarrow> 0 | Some f \<Rightarrow> real_of_int f)"

definition maximum_flow_of :: "network \<Rightarrow> flow_dict \<Rightarrow> bool" where
  "maximum_flow_of n fd =
     (distinct (map fst (entries fd)) \<and> set (map fst (entries fd)) = fst ` set n \<and>
      feasible n (flow_fun fd) \<and>
      (\<forall>h. feasible n h \<longrightarrow> flow_value n h \<le> flow_value n (flow_fun fd)))"

text \<open>
  Successive calls of \<open>gen_edges\<close>, the call of round \<open>i\<close> being answered by the library
  with the \<open>i\<close>-th flow dictionary of the list; the queues of the rounds are collected.
  After the first call \<open>gen_edges\<close> reads neither the graph nor the disks, so the commits
  between the calls do not matter here.
\<close>

fun gen_rounds ::
  "(nat graph \<Rightarrow> (nat \<times> nat) list option) \<Rightarrow> flow_dict list \<Rightarrow> bipartite \<Rightarrow> store \<Rightarrow>
     nat graph \<Rightarrow> error + ((nat \<times> nat) list list \<times> bipartite)" where
  "gen_rounds euler [] self st g = Inr ([], self)"
| "gen_rounds euler (fd # fds) self st g =
     (case Bipartite_gen_edges euler (\<lambda>_. fd) self st g of
        Inl x \<Rightarrow> Inl x
      | Inr (queue, self', st', g') \<Rightarrow>
          (case gen_rounds euler fds self' st' g' of
             Inl x \<Rightarrow> Inl x
           | Inr (queues, self'') \<Rightarrow> Inr (queue # queues, self'')))"

text \<open>
  The rounds that carry flow: every dictionary is a maximum flow of the network as the
  rounds before left it, and it has flow on some edge away from \<open>'s'\<close> and \<open>'t'\<close>.
\<close>

fun flowing_rounds :: "network \<Rightarrow> flow_dict list \<Rightarrow> bool" where
  "flowing_rounds n [] = True"
| "flowing_rounds n (fd # fds) =
     (maximum_flow_of n fd \<and> extract_flow fd \<noteq> [] \<and>
      flowing_rounds (filter (\<lambda>p. fst p \<notin> set (extract_flow fd)) n) fds)"

end
